theory Spec2Isabelle
  imports Complex_Main "HOL-Library.Word"
begin

unbundle bit_operations_syntax

section \<open>Data model\<close>

type_synonym byte = "8 word"

text \<open>
  Go error values. \<open>EOF\<close> is \<open>io.EOF\<close>; \<open>AlreadyClosed\<close> is the value
  \<open>fmt.Errorf("audio: the player is already closed")\<close> built by \<open>Close\<close> and \<open>Play\<close>;
  \<open>IOError\<close> is any other error a source, a seeker or a device writer returns.
\<close>

datatype error = EOF | AlreadyClosed | IOError string

text \<open>Run-time panics of the Go code, as values.\<close>

datatype panic =
    PanicNotSeekerRewind
  | PanicNotSeekerSeek
  | PanicVolume
  | PanicSliceBounds
  | PanicDivideByZero

text \<open>
  A \<open>float64\<close>: a finite value is \<open>m * 2 ^ e\<close> for an integer mantissa \<open>m\<close> and
  exponent \<open>e\<close> (every finite binary64 number has this form; the sign of zero is not
  kept, no operation of the player depends on it), or one of the three special values.
\<close>

datatype float64 = Finite int int | PosInf | NegInf | NaN

text \<open>
  Modelled from the spec: the \<open>Context\<close> type is declared outside the files at hand; the
  player only calls \<open>setError\<close>, \<open>hasError\<close>, \<open>addPlayer\<close> and \<open>removePlayer\<close> on it
  and uses its \<open>semaphore\<close> channel. The spec describes \<open>err\<close> as set at most once and
  sticky (first error wins, never cleared) and \<open>players\<close> as the set of live players.
  Players are identified by a number standing for the pointer.
\<close>

record Context =
  err :: "error option"
  ready :: bool
  players :: "nat set"

text \<open>Modelled from the spec: \<open>SetError\<close> is sticky, only the first call takes effect.\<close>

definition setError :: "Context \<Rightarrow> error \<Rightarrow> Context" where
  "setError c e = (if err c = None then c\<lparr>err := Some e\<rparr> else c)"

text \<open>Modelled from the spec: \<open>HasError\<close> reads the sticky flag.\<close>

definition hasError :: "Context \<Rightarrow> bool" where
  "hasError c = (err c \<noteq> None)"

text \<open>Modelled from the spec: register and deregister a player in the live set.\<close>

definition addPlayer :: "Context \<Rightarrow> nat \<Rightarrow> Context" where
  "addPlayer c pid = c\<lparr>players := insert pid (players c)\<rparr>"

definition removePlayer :: "Context \<Rightarrow> nat \<Rightarrow> Context" where
  "removePlayer c pid = c\<lparr>players := players c - {pid}\<rparr>"

text \<open>
  The struct \<open>writerContextPlayerImpl\<close>. The field \<open>context\<close> is a pointer to the
  shared context: the functions below take the context and return it updated. The
  field \<open>src\<close> holds the state of the source object; its methods are given by a
  \<open>source_ops\<close> value. The mutex \<open>m\<close> makes each method body atomic with respect
  to the other methods of the same player, so each method is one function. The scratch
  buffer \<open>readbuf\<close> only carries the bytes of one \<open>Read\<close> call into \<open>append\<close>, which
  copies them; it is not a field of the model. \<open>pos\<close> is an \<open>int64\<close>, kept as an
  integer with the wrap-around written out.
\<close>

record 's player =
  src :: 's
  sampleRate :: int
  playing :: bool
  closedExplicitly :: bool
  isLoopActive :: bool
  buf :: "byte list"
  pos :: int
  volume :: float64

text \<open>
  The source as the player sees it: \<open>Read_src s k\<close> is \<open>src.Read(b)\<close> with
  \<open>len(b) = k\<close> and returns the bytes written to the front of \<open>b\<close> (their number is
  the \<open>n\<close> of the Go call, at most \<open>k\<close> by the contract of \<open>io.Reader\<close>), the error
  and the new state of the source. \<open>Seek_src\<close> is \<open>None\<close> when the source is not an
  \<open>io.Seeker\<close>; otherwise \<open>seek s o\<close> is \<open>Seek(o, io.SeekStart)\<close>.
\<close>

record 's source_ops =
  Read_src :: "'s \<Rightarrow> nat \<Rightarrow> byte list \<times> error option \<times> 's"
  Seek_src :: "('s \<Rightarrow> int \<Rightarrow> (error + int) \<times> 's) option"

section \<open>Close, Play, Pause, IsPlaying\<close>

definition Close :: "'s player \<Rightarrow> error option \<times> 's player" where
  "Close p =
     (let p1 = p\<lparr>playing := False\<rparr> in
      if closedExplicitly p1 then (Some AlreadyClosed, p1)
      else (None, p1\<lparr>closedExplicitly := True\<rparr>))"

text \<open>
  \<open>Play\<close> returns the player, the context and whether \<open>go p.loop()\<close> was executed.
\<close>

definition Play :: "nat \<Rightarrow> 's player \<Rightarrow> Context \<Rightarrow> 's player \<times> Context \<times> bool" where
  "Play pid p c =
     (if closedExplicitly p then (p, setError c AlreadyClosed, False)
      else
        let p1 = p\<lparr>playing := True\<rparr> in
        if isLoopActive p1 then (p1, c, False)
        else (p1\<lparr>isLoopActive := True\<rparr>, addPlayer c pid, True))"

definition Pause :: "'s player \<Rightarrow> 's player" where
  "Pause p = p\<lparr>playing := False\<rparr>"

definition IsPlaying :: "'s player \<Rightarrow> bool" where
  "IsPlaying p = playing p"

section \<open>Machine arithmetic\<close>

text \<open>\<open>int64\<close> arithmetic wraps around; \<open>wrap64\<close> reads an integer as an \<open>int64\<close>.\<close>

definition wrap64 :: "int \<Rightarrow> int" where
  "wrap64 x = (x + 2 ^ 63) mod 2 ^ 64 - 2 ^ 63"

text \<open>Go's \<open>/\<close> and \<open>%\<close> on integers truncate towards zero.\<close>

definition go_div :: "int \<Rightarrow> int \<Rightarrow> int" where
  "go_div a b = sgn a * sgn b * (\<bar>a\<bar> div \<bar>b\<bar>)"

definition go_mod :: "int \<Rightarrow> int \<Rightarrow> int" where
  "go_mod a b = a - b * go_div a b"

subsection \<open>float64\<close>

text \<open>The comparison \<open>x <= y\<close> of two \<open>float64\<close> values: false as soon as one is NaN.\<close>

fun float64_le :: "float64 \<Rightarrow> float64 \<Rightarrow> bool" where
  "float64_le NaN y = False"
| "float64_le x NaN = False"
| "float64_le NegInf y = True"
| "float64_le x PosInf = True"
| "float64_le PosInf y = False"
| "float64_le x NegInf = False"
| "float64_le (Finite m1 e1) (Finite m2 e2) =
     (let e = min e1 e2 in m1 * 2 ^ nat (e1 - e) \<le> m2 * 2 ^ nat (e2 - e))"

text \<open>The real number a finite \<open>float64\<close> stands for (0 for the special values).\<close>

fun float64_val :: "float64 \<Rightarrow> real" where
  "float64_val (Finite m e) =
     (if 0 \<le> e then of_int m * 2 ^ nat e else of_int m / 2 ^ nat (- e))"
| "float64_val x = 0"

fun bitlen :: "nat \<Rightarrow> nat" where
  "bitlen n = (if n = 0 then 0 else Suc (bitlen (n div 2)))"

declare bitlen.simps [simp del]

text \<open>
  The binary64 number nearest to the exact value \<open>m * 2 ^ e\<close>, ties to even: at most 53
  bits of mantissa, no exponent below \<open>-1074\<close> (subnormal numbers), infinity from
  \<open>2 ^ 1024\<close> on.
\<close>

definition float64_round :: "int \<Rightarrow> int \<Rightarrow> float64" where
  "float64_round m e =
     (let a = nat \<bar>m\<bar>;
          k = max (int (bitlen a) - 53) (- 1074 - e);
          d = 2 ^ nat k;
          q = (if k \<le> 0 then a
               else if d < 2 * (a mod d) \<or> (2 * (a mod d) = d \<and> odd (a div d))
               then a div d + 1 else a div d);
          e' = (if k \<le> 0 then e else e + k)
      in if 1024 < int (bitlen q) + e' then (if 0 \<le> m then PosInf else NegInf)
         else Finite (sgn m * int q) e')"

text \<open>The product \<open>x * y\<close> of two \<open>float64\<close> values.\<close>

fun float64_mul :: "float64 \<Rightarrow> float64 \<Rightarrow> float64" where
  "float64_mul NaN y = NaN"
| "float64_mul x NaN = NaN"
| "float64_mul (Finite m1 e1) (Finite m2 e2) = float64_round (m1 * m2) (e1 + e2)"
| "float64_mul (Finite m e) PosInf = (if m = 0 then NaN else if 0 < m then PosInf else NegInf)"
| "float64_mul (Finite m e) NegInf = (if m = 0 then NaN else if 0 < m then NegInf else PosInf)"
| "float64_mul PosInf (Finite m e) = (if m = 0 then NaN else if 0 < m then PosInf else NegInf)"
| "float64_mul NegInf (Finite m e) = (if m = 0 then NaN else if 0 < m then NegInf else PosInf)"
| "float64_mul PosInf PosInf = PosInf"
| "float64_mul PosInf NegInf = NegInf"
| "float64_mul NegInf PosInf = NegInf"
| "float64_mul NegInf NegInf = PosInf"

text \<open>The conversion \<open>float64(v16)\<close> of an \<open>int16\<close>: exact.\<close>

definition float64_of_int16 :: "16 word \<Rightarrow> float64" where
  "float64_of_int16 v = Finite (sint v) 0"

text \<open>
  The conversion \<open>int16(f)\<close>: the fraction is discarded (truncation towards zero). For a
  value that does not fit Go leaves the result to the implementation; the model takes the
  amd64 result (the low 16 bits of the \<open>int64\<close> conversion, which is the minimal
  \<open>int64\<close> for NaN, an infinity or a value out of the \<open>int64\<close> range).
\<close>

definition int16_of_float64 :: "float64 \<Rightarrow> 16 word" where
  "int16_of_float64 f =
     (case f of
        Finite m e \<Rightarrow>
          (let t = (if 0 \<le> e then m * 2 ^ nat e else sgn m * (\<bar>m\<bar> div 2 ^ nat (- e)))
           in if - (2 ^ 63) \<le> t \<and> t < 2 ^ 63 then word_of_int t else 0)
      | _ \<Rightarrow> 0)"

section \<open>Reading and transforming one chunk\<close>

definition bufSize :: nat where
  "bufSize = 2048"

text \<open>One sample of the loop body: \<open>v16 = int16(float64(v16) * p.volume)\<close>.\<close>

definition scale_sample :: "float64 \<Rightarrow> 16 word \<Rightarrow> 16 word" where
  "scale_sample vol v16 = int16_of_float64 (float64_mul (float64_of_int16 v16) vol)"

text \<open>
  The loop \<open>for i := 0; i < len(buf)/2; i++\<close>: every pair of bytes, from the front, is
  read as \<open>int16(buf[2*i]) | (int16(buf[2*i+1]) << 8)\<close>, scaled and written back as
  \<open>byte(v16)\<close> and \<open>byte(v16 >> 8)\<close>; a last single byte is left as it is.
\<close>

fun scale_chunk :: "float64 \<Rightarrow> byte list \<Rightarrow> byte list" where
  "scale_chunk vol (lo # hi # rest) =
     (let v16 = scale_sample vol (ucast lo OR push_bit 8 (ucast hi))
      in ucast v16 # ucast (signed_drop_bit 8 v16) # scale_chunk vol rest)"
| "scale_chunk vol rest = rest"

text \<open>
  \<open>read\<close>, with the package constant \<open>bytesPerSample\<close> (declared outside the files at
  hand) as the parameter \<open>bps\<close>. The result is \<open>Inl\<close> for a panic, otherwise the
  returned pair (\<open>None\<close> for \<open>nil, false\<close>, \<open>Some chunk\<close> for \<open>chunk, true\<close>) with
  the player and the context as the call leaves them. The semaphore slot taken before
  \<open>src.Read\<close> is given back by the deferred receive on every path, so a completed call
  leaves the semaphore as it found it; section \<open>The admission semaphore\<close> models
  the calls of several players in flight.
\<close>

definition read ::
  "nat \<Rightarrow> 's source_ops \<Rightarrow> 's player \<Rightarrow> Context \<Rightarrow>
     panic + (byte list option \<times> 's player \<times> Context)" where
  "read bps ops p c =
     (if hasError c then Inr (None, p, c)
      else if closedExplicitly p then Inr (None, p, c)
      else if \<not> playing p then Inr (None, p, c)
      else if bufSize < length (buf p) then Inl PanicSliceBounds
      else
        (case Read_src ops (src p) (bufSize - length (buf p)) of
           (data, e, s) \<Rightarrow>
             let p1 = p\<lparr>src := s\<rparr> in
             if e \<noteq> None \<and> e \<noteq> Some EOF then Inr (None, p1, setError c (the e))
             else if e \<noteq> None \<and> length data = 0 then Inr (None, p1, c)
             else
               let b = buf p @ data;
                   n2 = length b - length b mod bps;
                   chunk = scale_chunk (volume p) (take n2 b)
               in Inr (Some chunk,
                       p1\<lparr>buf := drop n2 b, pos := wrap64 (pos p + int (length chunk))\<rparr>,
                       c)))"

text \<open>
  The \<open>for\<close> loop of \<open>loop\<close>: \<open>read\<close> until it returns \<open>false\<close>, each chunk sent to the
  forwarding goroutine in order. The loop need not end (a source may never reach its
  end), so the model counts iterations: \<open>loop_reads n\<close> is the loop stopped after at
  most \<open>n\<close> iterations, with the chunks sent so far and whether the loop has returned.
\<close>

fun loop_reads ::
  "nat \<Rightarrow> nat \<Rightarrow> 's source_ops \<Rightarrow> 's player \<Rightarrow> Context \<Rightarrow>
     panic + (byte list list \<times> bool \<times> 's player \<times> Context)" where
  "loop_reads 0 bps ops p c = Inr ([], False, p, c)"
| "loop_reads (Suc n) bps ops p c =
     (case read bps ops p c of
        Inl x \<Rightarrow> Inl x
      | Inr (None, p1, c1) \<Rightarrow> Inr ([], True, p1, c1)
      | Inr (Some chunk, p1, c1) \<Rightarrow>
          (case loop_reads n bps ops p1 c1 of
             Inl x \<Rightarrow> Inl x
           | Inr (chunks, stopped, p2, c2) \<Rightarrow> Inr (chunk # chunks, stopped, p2, c2)))"

section \<open>Seek, Rewind, Current\<close>

text \<open>
  \<open>Seek\<close>: \<open>offset\<close> is a \<open>time.Duration\<close>, an \<open>int64\<close> of nanoseconds, and
  \<open>int64(time.Second)\<close> is \<open>10 ^ 9\<close>. The result is \<open>Inl\<close> for a panic, otherwise the
  returned error and the player.
\<close>

definition Seek ::
  "nat \<Rightarrow> 's source_ops \<Rightarrow> 's player \<Rightarrow> int \<Rightarrow> panic + (error option \<times> 's player)" where
  "Seek bps ops p offset =
     (let o1 = go_div (wrap64 (wrap64 (offset * int bps) * sampleRate p)) (10 ^ 9);
          o2 = wrap64 (o1 - go_mod o1 (int bps))
      in case Seek_src ops of
           None \<Rightarrow> Inl PanicNotSeekerSeek
         | Some seek \<Rightarrow>
             (case seek (src p) o2 of
                (Inl e, s) \<Rightarrow> Inr (Some e, p\<lparr>src := s\<rparr>)
              | (Inr newpos, s) \<Rightarrow> Inr (None, p\<lparr>src := s, buf := [], pos := newpos\<rparr>)))"

definition Rewind ::
  "nat \<Rightarrow> 's source_ops \<Rightarrow> 's player \<Rightarrow> panic + (error option \<times> 's player)" where
  "Rewind bps ops p =
     (case Seek_src ops of
        None \<Rightarrow> Inl PanicNotSeekerRewind
      | Some seek \<Rightarrow> Seek bps ops p 0)"

definition Current :: "nat \<Rightarrow> 's player \<Rightarrow> panic + int" where
  "Current bps p =
     (let sample = go_div (pos p) (int bps)
      in if sampleRate p = 0 then Inl PanicDivideByZero
         else Inr (wrap64 (go_div (wrap64 (sample * 10 ^ 9)) (sampleRate p))))"

section \<open>Volume\<close>

definition Volume :: "'s player \<Rightarrow> float64" where
  "Volume p = volume p"

definition SetVolume :: "'s player \<Rightarrow> float64 \<Rightarrow> panic + 's player" where
  "SetVolume p v =
     (if \<not> (float64_le (Finite 0 0) v \<and> float64_le v (Finite 1 0)) then Inl PanicVolume
      else Inr (p\<lparr>volume := v\<rparr>))"

section \<open>The admission semaphore\<close>

text \<open>
  \<open>read\<close> sends on the buffered channel \<open>p.context.semaphore\<close> before \<open>src.Read\<close> and
  receives from it in a deferred function, so on every way out of the call. The channel
  is made outside the files at hand; its capacity is the parameter \<open>K\<close>. A send on a
  buffered channel goes through only while fewer than \<open>K\<close> values are buffered and
  blocks otherwise; a receive goes through only while a value is buffered.

  Each player runs \<open>read\<close> in its one streaming goroutine, under its own mutex. Where
  the goroutine of a player stands:
  \<^item> \<open>Outside\<close>: not in \<open>read\<close>, or in it before the three checks have passed;
  \<^item> \<open>AtSend\<close>: the checks have passed, the send is next;
  \<^item> \<open>InRead\<close>: the send is done; \<open>src.Read\<close> and the rest of the body run, the
    deferred receive is still to come.
\<close>

datatype pc = Outside | AtSend | InRead

record sys =
  sem :: nat
  pcs :: "pc list"

text \<open>One atomic step of the goroutine of player \<open>i\<close>.\<close>

datatype event = Enter nat | Send nat | Receive nat

text \<open>
  \<open>step K s ev\<close> is the state after the step, \<open>None\<close> when the step cannot be taken
  in \<open>s\<close> (the goroutine is elsewhere, or the channel operation blocks).
\<close>

fun step :: "nat \<Rightarrow> sys \<Rightarrow> event \<Rightarrow> sys option" where
  "step K s (Enter i) =
     (if i < length (pcs s) \<and> pcs s ! i = Outside
      then Some (s\<lparr>pcs := (pcs s)[i := AtSend]\<rparr>) else None)"
| "step K s (Send i) =
     (if i < length (pcs s) \<and> pcs s ! i = AtSend \<and> sem s < K
      then Some (s\<lparr>sem := sem s + 1, pcs := (pcs s)[i := InRead]\<rparr>) else None)"
| "step K s (Receive i) =
     (if i < length (pcs s) \<and> pcs s ! i = InRead \<and> 0 < sem s
      then Some (s\<lparr>sem := sem s - 1, pcs := (pcs s)[i := Outside]\<rparr>) else None)"

text \<open>An interleaved execution: the steps of a schedule, one after the other.\<close>

fun exec :: "nat \<Rightarrow> sys \<Rightarrow> event list \<Rightarrow> sys option" where
  "exec K s [] = Some s"
| "exec K s (ev # evs) = (case step K s ev of None \<Rightarrow> None | Some s1 \<Rightarrow> exec K s1 evs)"

text \<open>\<open>N\<close> players, none of them in \<open>read\<close>, and an empty channel.\<close>

definition init_sys :: "nat \<Rightarrow> sys" where
  "init_sys N = \<lparr>sem = 0, pcs = replicate N Outside\<rparr>"

text \<open>The number of source reads in flight.\<close>

definition in_flight :: "sys \<Rightarrow> nat" where
  "in_flight s = length (filter (\<lambda>x. x = InRead) (pcs s))"

section \<open>Notions used in the statements\<close>

text \<open>
  The blocks of bytes the source hands out during the iterations of \<open>loop_reads\<close> that
  send a chunk, in order.
\<close>

fun source_reads ::
  "nat \<Rightarrow> nat \<Rightarrow> 's source_ops \<Rightarrow> 's player \<Rightarrow> Context \<Rightarrow> byte list list" where
  "source_reads 0 bps ops p c = []"
| "source_reads (Suc n) bps ops p c =
     (case read bps ops p c of
        Inr (Some chunk, p1, c1) \<Rightarrow>
          fst (Read_src ops (src p) (bufSize - length (buf p))) # source_reads n bps ops p1 c1
      | _ \<Rightarrow> [])"

text \<open>
  The value of the little-endian signed 16-bit sample with low byte \<open>lo\<close> and high
  byte \<open>hi\<close>, by arithmetic, and the sample values of a chunk.
\<close>

definition sample_value :: "byte \<Rightarrow> byte \<Rightarrow> int" where
  "sample_value lo hi =
     (let u = uint lo + 256 * uint hi in if u < 32768 then u else u - 65536)"

fun samples :: "byte list \<Rightarrow> int list" where
  "samples (lo # hi # rest) = sample_value lo hi # samples rest"
| "samples rest = []"

text \<open>
  A source for concrete runs: a reader over a byte slice held in memory, as
  \<open>bytes.Reader\<close> of the Go library is. Its state is the slice and the index of the
  next byte; at the end it returns no byte and \<open>io.EOF\<close>; it refuses to seek to a
  negative position.
\<close>

definition mem_Read :: "byte list \<times> nat \<Rightarrow> nat \<Rightarrow> byte list \<times> error option \<times> (byte list \<times> nat)" where
  "mem_Read s k =
     (case s of (d, i) \<Rightarrow>
        if length d \<le> i then ([], Some EOF, (d, i))
        else (take k (drop i d), None, (d, i + min k (length d - i))))"

definition mem_Seek :: "byte list \<times> nat \<Rightarrow> int \<Rightarrow> (error + int) \<times> (byte list \<times> nat)" where
  "mem_Seek s off =
     (case s of (d, i) \<Rightarrow>
        if off < 0 then (Inl (IOError ''bytes.Reader.Seek: negative position''), (d, i))
        else (Inr off, (d, nat off)))"

definition mem_source :: "(byte list \<times> nat) source_ops" where
  "mem_source = \<lparr>Read_src = mem_Read, Seek_src = Some mem_Seek\<rparr>"

text \<open>A source that fails every read with an I/O error.\<close>

definition broken_source :: "unit source_ops" where
  "broken_source = \<lparr>Read_src = (\<lambda>s k. ([], Some (IOError ''device gone''), s)), Seek_src = None\<rparr>"

text \<open>
  A source that hands out the blocks of its state one read after the other (a block
  longer than the slice it is given is cut and the rest kept for the next read), then
  reports \<open>io.EOF\<close>. It is not a seeker.
\<close>

definition chunked_Read :: "byte list list \<Rightarrow> nat \<Rightarrow> byte list \<times> error option \<times> byte list list" where
  "chunked_Read s k =
     (case s of
        [] \<Rightarrow> ([], Some EOF, [])
      | b # bs \<Rightarrow> (take k b, None, if length b \<le> k then bs else drop k b # bs))"

definition chunked_source :: "byte list list source_ops" where
  "chunked_source = \<lparr>Read_src = chunked_Read, Seek_src = None\<rparr>"

text \<open>The errors returned by \<open>n\<close> calls of \<open>Close\<close> in a row on one player.\<close>

fun close_calls :: "nat \<Rightarrow> 's player \<Rightarrow> error option list" where
  "close_calls 0 p = []"
| "close_calls (Suc n) p = fst (Close p) # close_calls n (snd (Close p))"

text \<open>
  A player for concrete runs: nothing started, nothing pending, position 0, volume 1;
  and a context without error and without players.
\<close>

definition new_player :: "'s \<Rightarrow> int \<Rightarrow> 's player" where
  "new_player s rate =
     \<lparr>src = s, sampleRate = rate, playing = False, closedExplicitly = False,
      isLoopActive = False, buf = [], pos = 0, volume = Finite 1 0\<rparr>"

definition new_context :: "Context" where
  "new_context = \<lparr>err = None, ready = False, players = {}\<rparr>"

section \<open>Properties of reading\<close>

lemma length_scale_chunk: "length (scale_chunk vol xs) = length xs"
  by (induction vol xs rule: scale_chunk.induct) (simp_all add: Let_def)

lemma read_end_iff:
  assumes "length (buf p) \<le> bufSize"
  shows "(case Read_src ops (src p) (bufSize - length (buf p)) of (data, e, s) \<Rightarrow>
     ((\<exists>p' c'. read bps ops p c = Inr (None, p', c')) \<longleftrightarrow>
        hasError c \<or> closedExplicitly p \<or> \<not> playing p \<or> (e = Some EOF \<and> data = [])
        \<or> (e \<noteq> None \<and> e \<noteq> Some EOF)))"
  using assms by (auto simp: read_def Let_def split: prod.splits)

lemma read_failure:
  assumes "\<not> hasError c" "\<not> closedExplicitly p" "playing p" "length (buf p) \<le> bufSize"
    "Read_src ops (src p) (bufSize - length (buf p)) = (data, Some x, s)" "x \<noteq> EOF"
  shows "read bps ops p c = Inr (None, p\<lparr>src := s\<rparr>, c\<lparr>err := Some x\<rparr>)"
  using assms by (auto simp: read_def Let_def setError_def hasError_def)

lemma read_emits:
  assumes "\<not> hasError c" "\<not> closedExplicitly p" "playing p" "length (buf p) \<le> bufSize"
    "Read_src ops (src p) (bufSize - length (buf p)) = (data, e, s)" 
    "e = None \<or> (e = Some EOF \<and> data \<noteq> [])"
  shows "read bps ops p c = Inr (Some (scale_chunk (volume p) (take (length (buf p @ data) - length (buf p @ data) mod bps) (buf p @ data))),
      p\<lparr>src := s, buf := drop (length (buf p @ data) - length (buf p @ data) mod bps) (buf p @ data),
        pos := wrap64 (pos p + int (length (buf p @ data) - length (buf p @ data) mod bps))\<rparr>, c)"
  using assms by (auto simp: read_def Let_def length_scale_chunk)

lemma aligned_prefix_mod: "(n - n mod bps) mod bps = (0::nat)"
  by (metis minus_mod_eq_mult_div mod_mult_self1_is_0 mult.commute)

lemma read_Some_E:
  assumes "read bps ops p c = Inr (Some chunk, p1, c1)"
  obtains data e s b n2 where
    "Read_src ops (src p) (bufSize - length (buf p)) = (data, e, s)"
    "b = buf p @ data" "n2 = length b - length b mod bps"
    "chunk = scale_chunk (volume p) (take n2 b)"
    "p1 = p\<lparr>src := s, buf := drop n2 b, pos := wrap64 (pos p + int (length chunk))\<rparr>"
    "c1 = c" "\<not> hasError c" "\<not> closedExplicitly p" "playing p" "length (buf p) \<le> bufSize"
proof -
  obtain data e s where rd: "Read_src ops (src p) (bufSize - length (buf p)) = (data, e, s)"
    by (cases "Read_src ops (src p) (bufSize - length (buf p))")
  define b where "b = buf p @ data"
  define n2 where "n2 = length b - length b mod bps"
  have g: "\<not> hasError c" "\<not> closedExplicitly p" "playing p" "length (buf p) \<le> bufSize"
    using assms by (auto simp: read_def split: if_splits)
  have "read bps ops p c =
      (if e \<noteq> None \<and> e \<noteq> Some EOF then Inr (None, p\<lparr>src := s\<rparr>, setError c (the e))
       else if e \<noteq> None \<and> length data = 0 then Inr (None, p\<lparr>src := s\<rparr>, c)
       else Inr (Some (scale_chunk (volume p) (take n2 b)),
              p\<lparr>src := s, buf := drop n2 b,
                pos := wrap64 (pos p + int (length (scale_chunk (volume p) (take n2 b))))\<rparr>, c))"
    using g rd unfolding read_def b_def n2_def Let_def by simp
  with assms have "chunk = scale_chunk (volume p) (take n2 b)"
    "p1 = p\<lparr>src := s, buf := drop n2 b, pos := wrap64 (pos p + int (length chunk))\<rparr>" "c1 = c"
    by (auto split: if_splits)
  then show thesis using that rd b_def n2_def g by blast
qed

lemma read_Some_D:
  assumes "read bps ops p c = Inr (Some chunk, p1, c1)" "0 < bps"
  shows "\<exists>raw. chunk = scale_chunk (volume p) raw
      \<and> raw @ buf p1 = buf p @ fst (Read_src ops (src p) (bufSize - length (buf p)))
      \<and> length raw mod bps = 0 \<and> length (buf p1) < bps \<and> volume p1 = volume p \<and> c1 = c"
proof -
  from assms(1) obtain data e s b n2 where
    rd: "Read_src ops (src p) (bufSize - length (buf p)) = (data, e, s)" and
    b: "b = buf p @ data" and n2: "n2 = length b - length b mod bps" and
    ch: "chunk = scale_chunk (volume p) (take n2 b)" and
    p1: "p1 = p\<lparr>src := s, buf := drop n2 b, pos := wrap64 (pos p + int (length chunk))\<rparr>" and
    c1: "c1 = c"
    by (rule read_Some_E)
  have "take n2 b @ buf p1 = b" using p1 by simp
  moreover have "length (take n2 b) mod bps = 0"
    unfolding n2 by (simp add: aligned_prefix_mod)
  moreover have "length (buf p1) < bps"
    using p1 assms(2) unfolding n2 by simp
  ultimately show ?thesis using ch rd p1 c1 b by (intro exI[of _ "take n2 b"]) simp
qed


lemma read_no_panic:
  "length (buf p) \<le> bufSize \<Longrightarrow> \<exists>r. read bps ops p c = Inr r"
  by (cases "Read_src ops (src p) (bufSize - length (buf p))")
     (simp add: read_def Let_def)

lemma read_None_D:
  assumes "read bps ops p c = Inr (None, p1, c1)"
  shows "buf p1 = buf p \<and> volume p1 = volume p"
  using assms
  by (cases "Read_src ops (src p) (bufSize - length (buf p))")
     (auto simp: read_def Let_def split: if_splits)

lemma loop_reads_inv:
  assumes "0 < bps" "bps \<le> bufSize" "length (buf p) < bps"
  shows "\<exists>chunks stopped p' c'. loop_reads n bps ops p c = Inr (chunks, stopped, p', c')
     \<and> (\<forall>ch \<in> set chunks. length ch mod bps = 0)
     \<and> length (buf p') < bps
     \<and> (\<exists>raws. chunks = map (scale_chunk (volume p)) raws
           \<and> concat raws @ buf p' = buf p @ concat (source_reads n bps ops p c))"
  using assms(3)
proof (induction n arbitrary: p c)
  case 0
  then show ?case by (auto intro: exI[of _ False])
next
  case (Suc n)
  from Suc.prems assms(2) have "length (buf p) \<le> bufSize" by simp
  then obtain r where r: "read bps ops p c = Inr r" using read_no_panic by blast
  obtain res p1 c1 where r': "r = (res, p1, c1)" by (cases r)
  show ?case
  proof (cases res)
    case None
    with r r' have rd: "read bps ops p c = Inr (None, p1, c1)" by simp
    from read_None_D[OF rd] Suc.prems show ?thesis
      by (auto simp: rd intro: exI[of _ True])
  next
    case (Some chunk)
    with r r' have rd: "read bps ops p c = Inr (Some chunk, p1, c1)" by simp
    from read_Some_D[OF rd assms(1)] obtain raw where
      raw: "chunk = scale_chunk (volume p) raw"
        "raw @ buf p1 = buf p @ fst (Read_src ops (src p) (bufSize - length (buf p)))"
        "length raw mod bps = 0" "length (buf p1) < bps" "volume p1 = volume p"
      apply (elim exE conjE)
      apply (rule that; assumption)
      done
    from Suc.IH[OF raw(4), of c1] obtain chunks stopped p' c' raws where
      ih: "loop_reads n bps ops p1 c1 = Inr (chunks, stopped, p', c')"
        "\<forall>ch \<in> set chunks. length ch mod bps = 0" "length (buf p') < bps"
        "chunks = map (scale_chunk (volume p1)) raws"
        "concat raws @ buf p' = buf p1 @ concat (source_reads n bps ops p1 c1)"
      apply (elim exE conjE)
      apply (rule that; assumption)
      done
    let ?d = "fst (Read_src ops (src p) (bufSize - length (buf p)))"
    have sr: "source_reads (Suc n) bps ops p c = ?d # source_reads n bps ops p1 c1"
      by (simp add: rd)
    have "concat (raw # raws) @ buf p' = raw @ (concat raws @ buf p')" by simp
    also have "\<dots> = (raw @ buf p1) @ concat (source_reads n bps ops p1 c1)"
      by (simp only: ih(5) append_assoc)
    also have "\<dots> = buf p @ concat (source_reads (Suc n) bps ops p c)"
      by (simp only: raw(2) sr concat.simps append_assoc)
    finally have cc: "concat (raw # raws) @ buf p' = buf p @ concat (source_reads (Suc n) bps ops p c)" .
    have mp: "chunk # chunks = map (scale_chunk (volume p)) (raw # raws)"
      using raw(1,5) ih(4) by simp
    have al: "\<forall>ch \<in> set (chunk # chunks). length ch mod bps = 0"
      using raw(1,3) ih(2) by (simp add: length_scale_chunk)
    have lr: "loop_reads (Suc n) bps ops p c = Inr (chunk # chunks, stopped, p', c')"
      by (simp add: rd ih(1))
    show ?thesis
      apply (rule exI[of _ "chunk # chunks"], rule exI[of _ stopped], rule exI[of _ p'], rule exI[of _ c'])
      apply (intro conjI)
         apply (rule lr)
        apply (rule al)
       apply (rule ih(3))
      apply (rule exI[of _ "raw # raws"])
      apply (intro conjI)
       apply (rule mp)
      apply (rule cc)
      done
  qed
qed

section \<open>Properties of volume scaling\<close>

lemma lo_byte: "(ucast (ucast (lo::byte) OR push_bit 8 (ucast (hi::byte)) :: 16 word) :: byte) = lo"
  by (rule bit_word_eqI) (auto simp: bit_simps)

lemma hi_byte: "(ucast (signed_drop_bit 8 (ucast (lo::byte) OR push_bit 8 (ucast (hi::byte)) :: 16 word)) :: byte) = hi"
  by (rule bit_word_eqI) (auto simp: bit_simps dest: bit_imp_le_length)

lemma join_bytes: "(ucast (ucast (v::16 word) :: byte) OR push_bit 8 (ucast (ucast (signed_drop_bit 8 v) :: byte)) :: 16 word) = v"
  apply (rule bit_word_eqI)
  subgoal for n
    apply (cases "n < 8")
     apply (auto simp: bit_simps)
    done
  done

lemma uint_join: "uint (ucast (lo::byte) OR push_bit 8 (ucast (hi::byte)) :: 16 word) = uint lo + 256 * uint hi"
proof -
  have "(ucast lo OR push_bit 8 (ucast hi) :: 16 word) = ucast lo + push_bit 8 (ucast hi)"
    by (rule disjunctive_add[symmetric]) (auto simp: bit_simps dest: bit_imp_le_length)
  moreover have "uint lo < 256" "uint hi < 256" "0 \<le> uint lo" "0 \<le> uint hi"
    using uint_lt2p[of lo] uint_lt2p[of hi] by simp_all
  ultimately show ?thesis
    apply (simp add: uint_word_ariths push_bit_eq_mult uint_up_ucast is_up)
    done
qed


lemma sint16_uint:
  "sint (w :: 16 word) = (if uint w < 32768 then uint w else uint w - 65536)"
proof -
  have b: "0 \<le> uint w" "uint w < 65536" using uint_lt2p[of w] by simp_all
  have "sint w = (uint w + 32768) mod 65536 - 32768"
    by (simp add: sint_uint signed_take_bit_eq_take_bit_shift take_bit_eq_mod)
  also have "\<dots> = (if uint w < 32768 then uint w else uint w - 65536)"
  proof (cases "uint w < 32768")
    case True
    then have "(uint w + 32768) mod 65536 = uint w + 32768" using b by simp
    then show ?thesis using True by simp
  next
    case False
    then have "(uint w + 32768) mod 65536 = uint w + 32768 - 65536"
      using b by (simp add: mod_pos_geq)
    then show ?thesis using False by simp
  qed
  finally show ?thesis .
qed

lemma sample_value_sint:
  "sample_value lo hi = sint (ucast lo OR push_bit 8 (ucast hi) :: 16 word)"
  by (simp add: sample_value_def Let_def sint16_uint uint_join)

lemma bitlen_le: "n < 2 ^ k \<Longrightarrow> bitlen n \<le> k"
proof (induction k arbitrary: n)
  case 0
  then show ?case by (simp add: bitlen.simps)
next
  case (Suc k)
  then have "n div 2 < 2 ^ k" by simp
  from Suc.IH[OF this] show ?case by (subst bitlen.simps) simp
qed

lemma sint16_bounds: "- 32768 \<le> sint (v :: 16 word)" "sint (v :: 16 word) < 32768"
  using sint_ge[of v] sint_lt[of v] by simp_all

lemma bitlen_sint16: "bitlen (nat \<bar>sint (v :: 16 word)\<bar>) \<le> 16"
  using sint16_bounds[of v] by (intro bitlen_le) (simp add: nat_less_iff abs_if)

lemma round_small:
  assumes "bitlen (nat \<bar>m\<bar>) \<le> 16" "- 1021 \<le> e" "e \<le> 1000"
  shows "float64_round m e = Finite m e"
proof -
  define a where "a = nat \<bar>m\<bar>"
  have k: "max (int (bitlen a) - 53) (- 1074 - e) \<le> 0"
    using assms unfolding a_def by simp
  have o: "\<not> 1024 < int (bitlen a) + e" using assms unfolding a_def by simp
  have sg: "sgn m * int a = m" unfolding a_def by (simp add: sgn_if)
  show ?thesis
    unfolding float64_round_def Let_def a_def[symmetric]
    using k o sg by simp
qed

lemma scale_sample_one: "scale_sample (Finite 1 0) v = v"
  using sint16_bounds[of v]
  by (simp add: scale_sample_def float64_of_int16_def round_small bitlen_sint16 int16_of_float64_def)

lemma scale_sample_zero: "scale_sample (Finite 0 0) v = 0"
  by (simp add: scale_sample_def float64_of_int16_def round_small bitlen.simps int16_of_float64_def)

lemma go_div2_bounds: "- 32768 \<le> go_div (sint (v :: 16 word)) 2" "go_div (sint (v :: 16 word)) 2 < 32768"
  using sint16_bounds[of v] by (auto simp: go_div_def sgn_if abs_if)

lemma scale_sample_half_eq: "scale_sample (Finite 1 (- 1)) v = word_of_int (go_div (sint v) 2)"
  using go_div2_bounds[of v]
  by (simp add: scale_sample_def float64_of_int16_def round_small bitlen_sint16 int16_of_float64_def go_div_def)

lemma scale_sample_half: "sint (scale_sample (Finite 1 (- 1)) v) = go_div (sint v) 2"
  using go_div2_bounds[of v]
  by (simp add: scale_sample_half_eq signed_of_int signed_take_bit_int_eq_self)

section \<open>Properties of Close and Play\<close>

lemma close_calls_closed:
  "closedExplicitly p \<Longrightarrow> close_calls n p = replicate n (Some AlreadyClosed)"
  by (induction n arbitrary: p) (simp_all add: Close_def)

section \<open>Properties of volume scaling on chunks\<close>

lemma scale_chunk_one: "scale_chunk (Finite 1 0) xs = xs"
  by (induction "Finite 1 0" xs rule: scale_chunk.induct)
     (simp_all add: Let_def scale_sample_one lo_byte hi_byte)

lemma length_samples: "length (samples xs) = length xs div 2"
  by (induction xs rule: samples.induct) simp_all

lemma samples_scale_chunk:
  "samples (scale_chunk vol xs) = map (\<lambda>s. sint (scale_sample vol (word_of_int s))) (samples xs)"
  by (induction vol xs rule: scale_chunk.induct)
     (simp_all add: Let_def sample_value_sint join_bytes)

lemma samples_scale_chunk_zero:
  "samples (scale_chunk (Finite 0 0) xs) = replicate (length xs div 2) 0"
  by (simp add: samples_scale_chunk scale_sample_zero length_samples map_replicate_const)

lemma samples_scale_chunk_half:
  "samples (scale_chunk (Finite 1 (- 1)) xs) = map (\<lambda>s. go_div s 2) (samples xs)"
  by (induction "Finite 1 (- 1)" xs rule: scale_chunk.induct)
     (simp_all add: Let_def sample_value_sint join_bytes scale_sample_half)

lemma half_bytes: "scale_chunk (Finite 1 (- 1)) [232, 3] = [244, 1]"
  by (simp add: Let_def scale_sample_half_eq go_div_def)

section \<open>Properties of a broken context\<close>

lemma read_hasError: "hasError c \<Longrightarrow> read bps ops q c = Inr (None, q, c)"
  by (simp add: read_def)

lemma hasError_setError: "hasError (setError c e)"
  by (simp add: hasError_def setError_def)

lemma setError_cases: "setError c e = (if hasError c then c else c\<lparr>err := Some e\<rparr>)"
  by (simp add: hasError_def setError_def)

section \<open>Properties of the admission semaphore\<close>

lemma count_update:
  "i < length xs \<Longrightarrow>
     length (filter P (xs[i := v])) + (if P (xs ! i) then 1 else 0)
       = length (filter P xs) + (if P v then 1 else 0)"
proof (induction xs arbitrary: i)
  case Nil
  then show ?case by simp
next
  case (Cons x xs)
  then show ?case by (cases i) auto
qed

lemma step_inv:
  assumes "step K s ev = Some s'" and "in_flight s = sem s" and "sem s \<le> K"
  shows "in_flight s' = sem s' \<and> sem s' \<le> K \<and> length (pcs s') = length (pcs s)"
proof (cases ev)
  case (Enter i)
  with assms(1) have i: "i < length (pcs s)" "pcs s ! i = Outside" and s': "s' = s\<lparr>pcs := (pcs s)[i := AtSend]\<rparr>"
    by (auto split: if_splits)
  from count_update[OF i(1), of "\<lambda>x. x = InRead" AtSend] i(2) assms(2,3) show ?thesis
    by (simp add: s' in_flight_def)
next
  case (Send i)
  with assms(1) have i: "i < length (pcs s)" "pcs s ! i = AtSend" "sem s < K"
    and s': "s' = s\<lparr>sem := sem s + 1, pcs := (pcs s)[i := InRead]\<rparr>"
    by (auto split: if_splits)
  from count_update[OF i(1), of "\<lambda>x. x = InRead" InRead] i(2,3) assms(2,3) show ?thesis
    by (simp add: s' in_flight_def)
next
  case (Receive i)
  with assms(1) have i: "i < length (pcs s)" "pcs s ! i = InRead" "0 < sem s"
    and s': "s' = s\<lparr>sem := sem s - 1, pcs := (pcs s)[i := Outside]\<rparr>"
    by (auto split: if_splits)
  from count_update[OF i(1), of "\<lambda>x. x = InRead" Outside] i(2,3) assms(2,3) show ?thesis
    by (auto simp: s' in_flight_def)
qed

lemma exec_inv:
  "exec K s evs = Some s' \<Longrightarrow> in_flight s = sem s \<Longrightarrow> sem s \<le> K \<Longrightarrow>
     in_flight s' = sem s' \<and> sem s' \<le> K \<and> length (pcs s') = length (pcs s)"
proof (induction evs arbitrary: s)
  case Nil
  then show ?case by simp
next
  case (Cons ev evs)
  from Cons.prems(1) obtain s1 where s1: "step K s ev = Some s1" "exec K s1 evs = Some s'"
    by (auto split: option.splits)
  from step_inv[OF s1(1) Cons.prems(2,3)] Cons.IH[OF s1(2)] show ?case by simp
qed

lemma exec_take:
  "exec K s evs = Some s' \<Longrightarrow> \<exists>s1. exec K s (take j evs) = Some s1"
proof (induction evs arbitrary: s j)
  case Nil
  then show ?case by simp
next
  case (Cons ev evs)
  then show ?case by (cases j) (auto split: option.splits)
qed

lemma init_inv: "in_flight (init_sys N) = sem (init_sys N) \<and> sem (init_sys N) \<le> K \<and> length (pcs (init_sys N)) = N"
  by (simp add: init_sys_def in_flight_def)

section \<open>A run of the loop on a source of uneven blocks\<close>

lemma chunked_run:
  "loop_reads 5 2 chunked_source ((new_player [[1, 2, 3], [4, 5], [6, 7]] 44100)\<lparr>playing := True\<rparr>) new_context
     = Inr ([[1, 2], [3, 4], [5, 6]], True,
            (new_player [] 44100)\<lparr>playing := True, buf := [7], pos := 6\<rparr>, new_context)"
  "source_reads 5 2 chunked_source ((new_player [[1, 2, 3], [4, 5], [6, 7]] 44100)\<lparr>playing := True\<rparr>) new_context
     = [[1, 2, 3], [4, 5], [6, 7]]"
proof -
  let ?c = new_context
  let ?p0 = "(new_player [[1, 2, 3], [4, 5], [6, 7 :: byte]] 44100)\<lparr>playing := True\<rparr>"
  let ?p1 = "(new_player [[4, 5], [6, 7 :: byte]] 44100)\<lparr>playing := True, buf := [3], pos := 2\<rparr>"
  let ?p2 = "(new_player [[6, 7 :: byte]] 44100)\<lparr>playing := True, buf := [5], pos := 4\<rparr>"
  let ?p3 = "(new_player ([] :: byte list list) 44100)\<lparr>playing := True, buf := [7], pos := 6\<rparr>"
  note defs = read_def new_player_def new_context_def hasError_def bufSize_def
    chunked_source_def chunked_Read_def Let_def scale_chunk_one wrap64_def
  have r0: "read 2 chunked_source ?p0 ?c = Inr (Some [1, 2], ?p1, ?c)" by (simp add: defs)
  have r1: "read 2 chunked_source ?p1 ?c = Inr (Some [3, 4], ?p2, ?c)" by (simp add: defs)
  have r2: "read 2 chunked_source ?p2 ?c = Inr (Some [5, 6], ?p3, ?c)" by (simp add: defs)
  have r3: "read 2 chunked_source ?p3 ?c = Inr (None, ?p3, ?c)" by (simp add: defs)
  have n5: "(5::nat) = Suc (Suc (Suc (Suc (Suc 0))))" by simp
  have d0: "fst (Read_src chunked_source (src ?p0) (bufSize - length (buf ?p0))) = [1, 2, 3]"
    by (simp add: defs)
  have d1: "fst (Read_src chunked_source (src ?p1) (bufSize - length (buf ?p1))) = [4, 5]"
    by (simp add: defs)
  have d2: "fst (Read_src chunked_source (src ?p2) (bufSize - length (buf ?p2))) = [6, 7]"
    by (simp add: defs)
  show "loop_reads 5 2 chunked_source ?p0 ?c = Inr ([[1, 2], [3, 4], [5, 6]], True, ?p3, ?c)"
    by (simp add: n5 r0 r1 r2 r3)
  show "source_reads 5 2 chunked_source ?p0 ?c = [[1, 2, 3], [4, 5], [6, 7]]"
    using d0 d1 d2 by (simp add: n5 r0 r1 r2 r3)
qed

section \<open>Properties of the comparison of float64 values\<close>

lemma float64_val_powi: "float64_val (Finite m e) = of_int m * 2 powi e"
  by (cases "0 \<le> e") (simp_all add: power_int_def field_simps)

lemma float64_le_val:
  "float64_le (Finite m1 e1) (Finite m2 e2) \<longleftrightarrow> float64_val (Finite m1 e1) \<le> float64_val (Finite m2 e2)"
proof -
  define e where "e = min e1 e2"
  have p: "(0::real) < 2 powi e" by simp
  have k: "(2::real) powi e1 = 2 ^ nat (e1 - e) * 2 powi e" "(2::real) powi e2 = 2 ^ nat (e2 - e) * 2 powi e"
    unfolding e_def by (simp_all add: power_int_add[symmetric] flip: power_int_of_nat)
  have "float64_le (Finite m1 e1) (Finite m2 e2) \<longleftrightarrow> m1 * 2 ^ nat (e1 - e) \<le> m2 * 2 ^ nat (e2 - e)"
    by (simp add: Let_def e_def)
  also have "\<dots> \<longleftrightarrow> (of_int (m1 * 2 ^ nat (e1 - e)) :: real) \<le> of_int (m2 * 2 ^ nat (e2 - e))"
    by (simp only: of_int_le_iff)
  also have "\<dots> \<longleftrightarrow> (of_int m1 * 2 ^ nat (e1 - e)) * 2 powi e \<le> (of_int m2 * 2 ^ nat (e2 - e)) * (2::real) powi e"
    using p by (simp only: mult_le_cancel_right_pos of_int_mult of_int_power of_int_numeral)
  also have "\<dots> \<longleftrightarrow> float64_val (Finite m1 e1) \<le> float64_val (Finite m2 e2)"
    unfolding float64_val_powi k by (simp only: mult.assoc)
  finally show ?thesis .
qed

lemma float64_val_zero_one: "float64_val (Finite 0 0) = 0" "float64_val (Finite 1 0) = 1"
  by simp_all

lemma in_range_iff:
  "float64_le (Finite 0 0) v \<and> float64_le v (Finite 1 0)
     \<longleftrightarrow> (\<exists>m e. v = Finite m e) \<and> 0 \<le> float64_val v \<and> float64_val v \<le> 1"
proof (cases v)
  case (Finite m e)
  show ?thesis unfolding Finite float64_le_val float64_val_zero_one by simp
qed simp_all

section \<open>Properties of the time arithmetic\<close>

lemma wrap64_id: "- (2 ^ 63) \<le> x \<Longrightarrow> x < 2 ^ 63 \<Longrightarrow> wrap64 x = x"
  by (simp add: wrap64_def)

lemma int_div_le_self: "0 \<le> (a::int) \<Longrightarrow> 0 < b \<Longrightarrow> a div b \<le> a"
  using zdiv_mono2[of a 1 b] by simp

lemma go_div_nonneg: "0 \<le> a \<Longrightarrow> 0 < b \<Longrightarrow> go_div a b = a div b"
  by (cases "a = 0") (simp_all add: go_div_def sgn_if)

lemma go_mod_nonneg: "0 \<le> a \<Longrightarrow> 0 < b \<Longrightarrow> go_mod a b = a mod b"
  by (simp add: go_mod_def go_div_nonneg minus_mult_div_eq_mod)

lemma Seek_target:
  assumes "0 < bps" and "0 < rate" and "0 \<le> offset" and "offset * int bps * rate < 2 ^ 63"
  shows "(let o1 = go_div (wrap64 (wrap64 (offset * int bps) * rate)) (10 ^ 9)
          in wrap64 (o1 - go_mod o1 (int bps))) = offset * rate div 10 ^ 9 * int bps"
proof -
  define A where "A = offset * int bps * rate"
  have b: "0 < int bps" using assms(1) by simp
  have A0: "0 \<le> A" unfolding A_def using assms by simp
  have "offset * int bps * 1 \<le> offset * int bps * rate"
    using assms by (intro mult_left_mono) simp_all
  then have ob: "0 \<le> offset * int bps" "offset * int bps < 2 ^ 63"
    using assms by simp_all
  have w1: "wrap64 (offset * int bps) = offset * int bps"
    using ob by (intro wrap64_id) simp_all
  have w2: "wrap64 (offset * int bps * rate) = A"
    unfolding A_def[symmetric] using A0 assms(4) A_def by (intro wrap64_id) simp_all
  define o1 where "o1 = A div 10 ^ 9"
  have o1: "0 \<le> o1" "o1 \<le> A" unfolding o1_def using A0
    by (simp_all add: pos_imp_zdiv_nonneg_iff int_div_le_self)
  have g: "go_div A (10 ^ 9) = o1" unfolding o1_def using A0 by (simp add: go_div_nonneg)
  have m: "go_mod o1 (int bps) = o1 mod int bps" using o1 b by (simp add: go_mod_nonneg)
  have r: "o1 - o1 mod int bps = o1 div int bps * int bps"
    by (simp add: minus_mod_eq_div_mult)
  have "o1 div int bps * int bps \<le> o1" using b by (simp add: r[symmetric])
  moreover have "0 \<le> o1 div int bps * int bps" using o1 b by (simp add: pos_imp_zdiv_nonneg_iff)
  ultimately have w3: "wrap64 (o1 div int bps * int bps) = o1 div int bps * int bps"
    using o1 assms(4) A_def by (intro wrap64_id) simp_all
  have "o1 div int bps = A div (10 ^ 9 * int bps)"
    unfolding o1_def by (simp add: zdiv_zmult2_eq)
  also have "\<dots> = (offset * rate * int bps) div (10 ^ 9 * int bps)"
    unfolding A_def by (simp add: mult_ac)
  also have "\<dots> = offset * rate div 10 ^ 9"
    using b by simp
  finally have k: "o1 div int bps = offset * rate div 10 ^ 9" .
  have "(let o1 = go_div (wrap64 (wrap64 (offset * int bps) * rate)) (10 ^ 9)
          in wrap64 (o1 - go_mod o1 (int bps))) = wrap64 (o1 - go_mod o1 (int bps))"
    unfolding Let_def w1 w2 g ..
  also have "\<dots> = o1 div int bps * int bps" unfolding m r by (rule w3)
  also have "\<dots> = offset * rate div 10 ^ 9 * int bps" unfolding k ..
  finally show ?thesis .
qed

lemma Current_at:
  assumes "0 < bps" and "0 < rate" and "0 \<le> k" and "k * 10 ^ 9 < 2 ^ 63" and "sampleRate q = rate"
    and "pos q = k * int bps"
  shows "Current bps q = Inr (k * 10 ^ 9 div rate)"
proof -
  have s: "go_div (pos q) (int bps) = k"
    using assms by (simp add: go_div_nonneg)
  have w: "wrap64 (k * 10 ^ 9) = k * 10 ^ 9" using assms by (intro wrap64_id) simp_all
  have d: "go_div (k * 10 ^ 9) rate = k * 10 ^ 9 div rate" using assms by (simp add: go_div_nonneg)
  have "0 \<le> k * 10 ^ 9 div rate" using assms by (simp add: pos_imp_zdiv_nonneg_iff)
  moreover have "k * 10 ^ 9 div rate \<le> k * 10 ^ 9" using assms by (simp add: int_div_le_self)
  ultimately have w2: "wrap64 (k * 10 ^ 9 div rate) = k * 10 ^ 9 div rate"
    using assms(4) by (intro wrap64_id) simp_all
  have "Current bps q = Inr (wrap64 (go_div (wrap64 (k * 10 ^ 9)) rate))"
    unfolding Current_def Let_def s using assms(2,5) by simp
  also have "\<dots> = Inr (k * 10 ^ 9 div rate)" unfolding w d w2 ..
  finally show ?thesis .
qed

lemma div_sandwich:
  assumes "0 < (g::int)"
  shows "x div g * g \<le> x" and "x < x div g * g + g"
proof -
  have "x div g * g + x mod g = x" by simp
  moreover have "0 \<le> x mod g" "x mod g < g" using assms by simp_all
  ultimately show "x div g * g \<le> x" and "x < x div g * g + g" by linarith+
qed

lemma round_trip_bounds:
  assumes "0 < (rate::int)" and "0 \<le> offset"
  shows "offset * rate div 10 ^ 9 * 10 ^ 9 div rate \<le> offset"
    and "(offset - offset * rate div 10 ^ 9 * 10 ^ 9 div rate) * rate < 10 ^ 9 + rate"
proof -
  define g :: int where "g = 10 ^ 9"
  have g: "0 < g" unfolding g_def by simp
  define k where "k = offset * rate div g"
  define cur where "cur = k * g div rate"
  have k1: "k * g \<le> offset * rate" and k2: "offset * rate < k * g + g"
    unfolding k_def using div_sandwich[OF g, of "offset * rate"] by simp_all
  have c1: "cur * rate \<le> k * g" and c2: "k * g < cur * rate + rate"
    unfolding cur_def using div_sandwich[OF assms(1), of "k * g"] by simp_all
  have "cur * rate \<le> offset * rate" using k1 c1 by linarith
  then have "cur \<le> offset" using assms(1) by simp
  then show "offset * rate div 10 ^ 9 * 10 ^ 9 div rate \<le> offset" unfolding cur_def k_def g_def .
  have "offset * rate - cur * rate < g + rate" using k2 c2 by linarith
  then have "(offset - cur) * rate < g + rate" by (simp add: algebra_simps)
  then show "(offset - offset * rate div 10 ^ 9 * 10 ^ 9 div rate) * rate < 10 ^ 9 + rate"
    unfolding cur_def k_def g_def .
qed

section \<open>The claims\<close>

text \<open>
  C2. One call of \<open>read\<close> on a player whose pending buffer fits the scratch buffer,
  with \<open>(data, e, s)\<close> what the source returns: the call returns \<open>nil, false\<close> exactly
  when the context holds an error, the player is explicitly closed, the player is not
  playing, the source reports \<open>io.EOF\<close> with no byte, or the source reports another
  error; in that last case the error becomes the error of the context. In every other
  case a chunk is returned with \<open>true\<close> and the context is untouched, and when the
  pending bytes and the new bytes together are fewer than one sample the chunk is
  empty and all the bytes stay pending.
\<close>

theorem read_signals_end:
  assumes "length (buf p) \<le> bufSize"
    and "Read_src ops (src p) (bufSize - length (buf p)) = (data, e, s)"
  shows "((\<exists>p' c'. read bps ops p c = Inr (None, p', c')) \<longleftrightarrow>
            hasError c \<or> closedExplicitly p \<or> \<not> playing p
            \<or> (e = Some EOF \<and> data = []) \<or> (e \<noteq> None \<and> e \<noteq> Some EOF))
    \<and> (\<not> hasError c \<and> \<not> closedExplicitly p \<and> playing p \<and> e \<noteq> None \<and> e \<noteq> Some EOF \<longrightarrow>
            read bps ops p c = Inr (None, p\<lparr>src := s\<rparr>, c\<lparr>err := e\<rparr>))
    \<and> ((\<nexists>p' c'. read bps ops p c = Inr (None, p', c')) \<longrightarrow>
            (\<exists>chunk p'. read bps ops p c = Inr (Some chunk, p', c)))
    \<and> (\<not> hasError c \<and> \<not> closedExplicitly p \<and> playing p
         \<and> (e = None \<or> (e = Some EOF \<and> data \<noteq> [])) \<and> length (buf p @ data) < bps \<longrightarrow>
            read bps ops p c =
              Inr (Some [], p\<lparr>src := s, buf := buf p @ data, pos := wrap64 (pos p)\<rparr>, c))"
proof (intro conjI impI)
  show "(\<exists>p' c'. read bps ops p c = Inr (None, p', c')) \<longleftrightarrow>
            hasError c \<or> closedExplicitly p \<or> \<not> playing p
            \<or> (e = Some EOF \<and> data = []) \<or> (e \<noteq> None \<and> e \<noteq> Some EOF)"
    using read_end_iff[OF assms(1), where ops=ops and bps=bps and c=c] assms(2) by simp
next
  assume "\<not> hasError c \<and> \<not> closedExplicitly p \<and> playing p \<and> e \<noteq> None \<and> e \<noteq> Some EOF"
  then show "read bps ops p c = Inr (None, p\<lparr>src := s\<rparr>, c\<lparr>err := e\<rparr>)"
    using assms by (auto simp: read_def Let_def setError_def hasError_def)
next
  assume n: "\<nexists>p' c'. read bps ops p c = Inr (None, p', c')"
  then have g: "\<not> hasError c" "\<not> closedExplicitly p" "playing p" "e = None \<or> (e = Some EOF \<and> data \<noteq> [])"
    using read_end_iff[OF assms(1), where ops=ops and bps=bps and c=c] assms(2) by auto
  from read_emits[OF g(1-3) assms(1) assms(2) g(4)]
  show "\<exists>chunk p'. read bps ops p c = Inr (Some chunk, p', c)" by blast
next
  assume a: "\<not> hasError c \<and> \<not> closedExplicitly p \<and> playing p
         \<and> (e = None \<or> (e = Some EOF \<and> data \<noteq> [])) \<and> length (buf p @ data) < bps"
  then have g: "\<not> hasError c" "\<not> closedExplicitly p" "playing p" "e = None \<or> (e = Some EOF \<and> data \<noteq> [])"
    and l: "length (buf p @ data) < bps" by simp_all
  from l have z: "length (buf p @ data) - length (buf p @ data) mod bps = 0" by simp
  show "read bps ops p c =
              Inr (Some [], p\<lparr>src := s, buf := buf p @ data, pos := wrap64 (pos p)\<rparr>, c)"
    unfolding read_emits[OF g(1-3) assms(1) assms(2) g(4)] z by simp
qed

theorem read_signals_end_witness:
  "length (buf ((new_player ([], 0) 44100)\<lparr>playing := True\<rparr>)) \<le> bufSize
   \<and> Read_src mem_source (src ((new_player ([], 0) 44100)\<lparr>playing := True\<rparr>))
        (bufSize - length (buf ((new_player ([], 0) 44100)\<lparr>playing := True\<rparr>))) = ([], Some EOF, ([], 0))
   \<and> (\<exists>p' c'. read 2 mem_source ((new_player ([], 0) 44100)\<lparr>playing := True\<rparr>) new_context = Inr (None, p', c'))
   \<and> read 2 broken_source ((new_player () 44100)\<lparr>playing := True\<rparr>) new_context
        = Inr (None, (new_player () 44100)\<lparr>playing := True\<rparr>, new_context\<lparr>err := Some (IOError ''device gone'')\<rparr>)
   \<and> read 2 mem_source ((new_player ([7], 0) 44100)\<lparr>playing := True\<rparr>) new_context
        = Inr (Some [], (new_player ([7], 1) 44100)\<lparr>playing := True, buf := [7]\<rparr>, new_context)"
proof -
  let ?p = "(new_player (([], 0) :: byte list \<times> nat) 44100)\<lparr>playing := True\<rparr>"
  have h1: "length (buf ?p) \<le> bufSize" by (simp add: new_player_def)
  have h2: "Read_src mem_source (src ?p) (bufSize - length (buf ?p)) = ([], Some EOF, ([], 0))"
    by (simp add: new_player_def mem_source_def mem_Read_def)
  let ?q = "(new_player () 44100)\<lparr>playing := True\<rparr>"
  have q1: "length (buf ?q) \<le> bufSize" by (simp add: new_player_def)
  have q2: "Read_src broken_source (src ?q) (bufSize - length (buf ?q)) = ([], Some (IOError ''device gone''), ())"
    by (simp add: broken_source_def)
  let ?r = "(new_player (([7], 0) :: byte list \<times> nat) 44100)\<lparr>playing := True\<rparr>"
  have r1: "length (buf ?r) \<le> bufSize" by (simp add: new_player_def)
  have r2: "Read_src mem_source (src ?r) (bufSize - length (buf ?r)) = ([7], None, ([7], 1))"
    by (simp add: new_player_def mem_source_def mem_Read_def bufSize_def)
  show ?thesis
    using h1 h2 read_signals_end[OF h1 h2, where bps=2 and c=new_context]
      read_signals_end[OF q1 q2, where bps=2 and c=new_context]
      read_signals_end[OF r1 r2, where bps=2 and c=new_context]
    by (simp add: new_player_def new_context_def hasError_def wrap64_def)
qed

text \<open>
  C7. On a player that is not explicitly closed, \<open>Close\<close> returns no error and marks
  the player explicitly closed; the next \<open>Close\<close> returns the already-closed error and
  changes nothing more, and so does every later one: of \<open>n + 1\<close> calls in a row the
  first returns no error and the \<open>n\<close> others the already-closed error.
\<close>

theorem Close_first_then_already_closed:
  assumes "\<not> closedExplicitly p"
  shows "Close p = (None, p\<lparr>playing := False, closedExplicitly := True\<rparr>)
     \<and> Close (snd (Close p)) = (Some AlreadyClosed, snd (Close p))
     \<and> closedExplicitly (snd (Close p))
     \<and> close_calls (Suc n) p = None # replicate n (Some AlreadyClosed)"
  using assms by (simp add: Close_def close_calls_closed)

theorem Close_first_then_already_closed_witness:
  "\<not> closedExplicitly (new_player () 44100)
   \<and> Close (new_player () 44100) = (None, (new_player () 44100)\<lparr>closedExplicitly := True\<rparr>)
   \<and> close_calls 3 (new_player () 44100) = [None, Some AlreadyClosed, Some AlreadyClosed]"
  using Close_first_then_already_closed[of "new_player () 44100" 2]
  by (simp add: new_player_def numeral_3_eq_3 numeral_2_eq_2 Close_def)

text \<open>
  C10. After any call of \<open>Close\<close>, \<open>IsPlaying\<close> is false. On an explicitly closed
  player the call returns the already-closed error and still clears \<open>playing\<close>: when
  that player was playing, the player the failed call leaves differs from the one it
  found.
\<close>

theorem Close_clears_playing:
  "IsPlaying (snd (Close p)) = False
   \<and> (closedExplicitly p \<longrightarrow> Close p = (Some AlreadyClosed, p\<lparr>playing := False\<rparr>))
   \<and> (closedExplicitly p \<and> playing p \<longrightarrow> snd (Close p) \<noteq> p)"
  by (auto simp: Close_def IsPlaying_def Let_def dest: arg_cong[where f=playing])

theorem Close_clears_playing_witness:
  "closedExplicitly ((new_player () 44100)\<lparr>playing := True, closedExplicitly := True\<rparr>)
   \<and> IsPlaying ((new_player () 44100)\<lparr>playing := True, closedExplicitly := True\<rparr>)
   \<and> Close ((new_player () 44100)\<lparr>playing := True, closedExplicitly := True\<rparr>)
       = (Some AlreadyClosed, (new_player () 44100)\<lparr>closedExplicitly := True\<rparr>)
   \<and> IsPlaying (snd (Close ((new_player () 44100)\<lparr>playing := True, closedExplicitly := True\<rparr>))) = False"
  using Close_clears_playing[of "(new_player () 44100)\<lparr>playing := True, closedExplicitly := True\<rparr>"]
  by (simp add: new_player_def IsPlaying_def)

text \<open>
  C8. \<open>Play\<close> on a player that is not explicitly closed and whose \<open>isLoopActive\<close> is
  set: \<open>playing\<close> is set, every other field of the player is as before, the context is
  as before (no second registration), and no goroutine is started.
\<close>

theorem Play_loop_active:
  assumes "\<not> closedExplicitly p" and "isLoopActive p"
  shows "Play pid p c = (p\<lparr>playing := True\<rparr>, c, False)"
  using assms by (simp add: Play_def Let_def)

theorem Play_loop_active_witness:
  "\<not> closedExplicitly ((new_player () 44100)\<lparr>isLoopActive := True\<rparr>)
   \<and> isLoopActive ((new_player () 44100)\<lparr>isLoopActive := True\<rparr>)
   \<and> Play 7 ((new_player () 44100)\<lparr>isLoopActive := True\<rparr>) (addPlayer new_context 7)
       = ((new_player () 44100)\<lparr>playing := True, isLoopActive := True\<rparr>, addPlayer new_context 7, False)
   \<and> Play 7 (new_player () 44100) new_context
       = ((new_player () 44100)\<lparr>playing := True, isLoopActive := True\<rparr>, addPlayer new_context 7, True)"
  using Play_loop_active[of "(new_player () 44100)\<lparr>isLoopActive := True\<rparr>" 7 "addPlayer new_context 7"]
  by (simp add: new_player_def Play_def Let_def)

text \<open>
  C5. The scaling loop on a chunk, the samples read as little-endian signed 16-bit
  values. With volume 1 (\<open>Finite 1 0\<close>) the chunk is unchanged, byte for byte. With
  volume 0 (\<open>Finite 0 0\<close>) every sample of the result is zero. With volume 0.5
  (\<open>Finite 1 (- 1)\<close>) every sample is the input sample divided by two, the fraction
  dropped towards zero: the sample 1000, the bytes \<open>232, 3\<close>, becomes 500, the bytes
  \<open>244, 1\<close>, and the sample \<open>- 1001\<close> becomes \<open>- 500\<close>.
\<close>

theorem volume_scaling:
  "scale_chunk (Finite 1 0) chunk = chunk
   \<and> samples (scale_chunk (Finite 0 0) chunk) = replicate (length chunk div 2) 0
   \<and> samples (scale_chunk (Finite 1 (- 1)) chunk) = map (\<lambda>s. go_div s 2) (samples chunk)
   \<and> samples [232, 3] = [1000]
   \<and> samples (scale_chunk (Finite 1 (- 1)) [232, 3]) = [500]
   \<and> scale_chunk (Finite 1 (- 1)) [232, 3] = [244, 1]
   \<and> samples [23, 252] = [- 1001]
   \<and> samples (scale_chunk (Finite 1 (- 1)) [23, 252]) = [- 500]"
proof -
  have a: "samples [232, 3] = [1000]" "samples [23, 252] = [- 1001]"
    by (simp_all add: sample_value_def)
  have b: "samples (scale_chunk (Finite 1 (- 1)) [232, 3]) = [500]"
    unfolding samples_scale_chunk_half a by (simp add: go_div_def)
  have c: "samples (scale_chunk (Finite 1 (- 1)) [23, 252]) = [- 500]"
    unfolding samples_scale_chunk_half a by (simp add: go_div_def)
  show ?thesis
    using a b c half_bytes
    by (simp only: scale_chunk_one samples_scale_chunk_zero samples_scale_chunk_half simp_thms)
qed

text \<open>
  C1, as the code has it. \<open>Play\<close> on an explicitly closed player returns the player
  as it is (not playing, no loop started), starts no goroutine and hands the
  already-closed error to \<open>setError\<close> of the shared context. With the error of a
  context sticky: a context without error has the already-closed error afterwards and
  is otherwise as before; a context that already has an error is left as it is, with
  the error it had. Either way the context has an error after the call, \<open>read\<close> of
  any player on it returns \<open>nil, false\<close> and leaves player and context alone, and the
  loop of any player of the context ends at its next iteration without a chunk.
\<close>

theorem Play_closed_sets_context_error:
  assumes "closedExplicitly p"
  shows "Play pid p c = (p, setError c AlreadyClosed, False)
     \<and> setError c AlreadyClosed = (if hasError c then c else c\<lparr>err := Some AlreadyClosed\<rparr>)
     \<and> err (setError c AlreadyClosed) = (if hasError c then err c else Some AlreadyClosed)
     \<and> players (setError c AlreadyClosed) = players c
     \<and> hasError (setError c AlreadyClosed)
     \<and> read bps ops q (setError c AlreadyClosed) = Inr (None, q, setError c AlreadyClosed)
     \<and> loop_reads (Suc n) bps ops q (setError c AlreadyClosed) = Inr ([], True, q, setError c AlreadyClosed)"
proof -
  have a: "Play pid p c = (p, setError c AlreadyClosed, False)"
    using assms by (simp add: Play_def)
  have b: "err (setError c AlreadyClosed) = (if hasError c then err c else Some AlreadyClosed)"
    "players (setError c AlreadyClosed) = players c"
    by (simp_all add: setError_def hasError_def)
  have r: "read bps ops q (setError c AlreadyClosed) = Inr (None, q, setError c AlreadyClosed)"
    by (rule read_hasError[OF hasError_setError])
  have l: "loop_reads (Suc n) bps ops q (setError c AlreadyClosed) = Inr ([], True, q, setError c AlreadyClosed)"
    by (simp add: r)
  show ?thesis
    apply (intro conjI)
          apply (rule a)
         apply (rule setError_cases)
        apply (rule b(1))
       apply (rule b(2))
      apply (rule hasError_setError)
     apply (rule r)
    apply (rule l)
    done
qed

theorem Play_closed_sets_context_error_witness:
  "closedExplicitly ((new_player () 44100)\<lparr>closedExplicitly := True\<rparr>)
   \<and> Play 0 ((new_player () 44100)\<lparr>closedExplicitly := True\<rparr>) new_context
       = ((new_player () 44100)\<lparr>closedExplicitly := True\<rparr>, new_context\<lparr>err := Some AlreadyClosed\<rparr>, False)
   \<and> err (new_context\<lparr>err := Some AlreadyClosed\<rparr>) = Some AlreadyClosed
   \<and> hasError (new_context\<lparr>err := Some AlreadyClosed\<rparr>)
   \<and> read 2 mem_source ((new_player ([1, 2], 0) 44100)\<lparr>playing := True, isLoopActive := True\<rparr>)
         (new_context\<lparr>err := Some AlreadyClosed\<rparr>)
       = Inr (None, (new_player ([1, 2], 0) 44100)\<lparr>playing := True, isLoopActive := True\<rparr>,
              new_context\<lparr>err := Some AlreadyClosed\<rparr>)
   \<and> hasError (new_context\<lparr>err := Some (IOError ''device gone'')\<rparr>)
   \<and> Play 0 ((new_player () 44100)\<lparr>closedExplicitly := True\<rparr>)
         (new_context\<lparr>err := Some (IOError ''device gone'')\<rparr>)
       = ((new_player () 44100)\<lparr>closedExplicitly := True\<rparr>,
          new_context\<lparr>err := Some (IOError ''device gone'')\<rparr>, False)
   \<and> read 2 mem_source ((new_player ([1, 2], 0) 44100)\<lparr>playing := True, isLoopActive := True\<rparr>)
         (new_context\<lparr>err := Some (IOError ''device gone'')\<rparr>)
       = Inr (None, (new_player ([1, 2], 0) 44100)\<lparr>playing := True, isLoopActive := True\<rparr>,
              new_context\<lparr>err := Some (IOError ''device gone'')\<rparr>)"
  using Play_closed_sets_context_error[of "(new_player () 44100)\<lparr>closedExplicitly := True\<rparr>" 0 new_context
      2 mem_source "(new_player ([1, 2], 0) 44100)\<lparr>playing := True, isLoopActive := True\<rparr>" 0]
    Play_closed_sets_context_error[of "(new_player () 44100)\<lparr>closedExplicitly := True\<rparr>" 0
      "new_context\<lparr>err := Some (IOError ''device gone'')\<rparr>"
      2 mem_source "(new_player ([1, 2], 0) 44100)\<lparr>playing := True, isLoopActive := True\<rparr>" 0]
  by (simp add: new_player_def new_context_def hasError_def setError_def)

text \<open>
  C1, against the claim that the call leaves the context intact and other players
  unaffected. A playing player with two bytes to read gets a chunk from \<open>read\<close> on a
  fresh context. Once \<open>Play\<close> has been called on another, explicitly closed player of
  that context, the context has an error and the same \<open>read\<close> returns \<open>nil, false\<close>.
\<close>

theorem Play_closed_stops_other_player:
  "\<not> hasError new_context
   \<and> read 2 mem_source ((new_player ([1, 2], 0) 44100)\<lparr>playing := True, isLoopActive := True\<rparr>) new_context
       = Inr (Some [1, 2],
              (new_player ([1, 2], 2) 44100)\<lparr>playing := True, isLoopActive := True, pos := 2\<rparr>,
              new_context)
   \<and> hasError (fst (snd (Play 0 ((new_player ([], 0) 44100)\<lparr>closedExplicitly := True\<rparr>) new_context)))
   \<and> read 2 mem_source ((new_player ([1, 2], 0) 44100)\<lparr>playing := True, isLoopActive := True\<rparr>)
         (fst (snd (Play 0 ((new_player ([], 0) 44100)\<lparr>closedExplicitly := True\<rparr>) new_context)))
       = Inr (None, (new_player ([1, 2], 0) 44100)\<lparr>playing := True, isLoopActive := True\<rparr>,
              new_context\<lparr>err := Some AlreadyClosed\<rparr>)"
  by (simp add: read_def Play_def new_player_def new_context_def setError_def hasError_def
      mem_source_def mem_Read_def bufSize_def Let_def scale_chunk_one wrap64_def)

text \<open>
  C9. \<open>N\<close> players share a channel of capacity \<open>K\<close>. In every execution from the
  initial state, after any number \<open>j\<close> of its steps: at most \<open>K\<close> source reads are in
  flight; the number of reads in flight is the number of values in the channel (every
  read in flight holds the slot it took before \<open>src.Read\<close>, and no slot is held
  otherwise); with \<open>K\<close> reads in flight the send of any further player blocks; and the
  deferred receive of a player in flight never blocks, so its slot is given back.
\<close>

theorem semaphore_bound:
  assumes "exec K (init_sys N) evs = Some s'"
  shows "\<exists>s. exec K (init_sys N) (take j evs) = Some s
      \<and> in_flight s \<le> K \<and> in_flight s = sem s
      \<and> (in_flight s = K \<longrightarrow> step K s (Send i) = None)
      \<and> (i < N \<and> pcs s ! i = InRead \<longrightarrow> step K s (Receive i) \<noteq> None)"
proof -
  from exec_take[OF assms, of j] obtain s where s: "exec K (init_sys N) (take j evs) = Some s" ..
  from exec_inv[OF s] init_inv[of N K]
  have inv: "in_flight s = sem s" "sem s \<le> K" "length (pcs s) = N" by simp_all
  have "0 < sem s" if "i < N" "pcs s ! i = InRead"
  proof -
    from that inv(3) have "InRead \<in> set (pcs s)" by (metis nth_mem)
    then have "filter (\<lambda>x. x = InRead) (pcs s) \<noteq> []" by (simp add: filter_empty_conv)
    then show ?thesis using inv(1) by (cases "sem s") (auto simp: in_flight_def)
  qed
  then show ?thesis using s inv by auto
qed

theorem semaphore_bound_witness:
  "exec 2 (init_sys 3) [Enter 0, Send 0, Enter 1, Send 1, Enter 2, Receive 0, Send 2]
      = Some \<lparr>sem = 2, pcs = [Outside, InRead, InRead]\<rparr>
   \<and> exec 2 (init_sys 3) (take 5 [Enter 0, Send 0, Enter 1, Send 1, Enter 2, Receive 0, Send 2])
      = Some \<lparr>sem = 2, pcs = [InRead, InRead, AtSend]\<rparr>
   \<and> in_flight \<lparr>sem = 2, pcs = [InRead, InRead, AtSend]\<rparr> = 2
   \<and> step 2 \<lparr>sem = 2, pcs = [InRead, InRead, AtSend]\<rparr> (Send 2) = None
   \<and> step 2 \<lparr>sem = 2, pcs = [InRead, InRead, AtSend]\<rparr> (Receive 0)
      = Some \<lparr>sem = 1, pcs = [Outside, InRead, AtSend]\<rparr>"
proof -
  have e: "exec 2 (init_sys 3) [Enter 0, Send 0, Enter 1, Send 1, Enter 2, Receive 0, Send 2]
      = Some \<lparr>sem = 2, pcs = [Outside, InRead, InRead]\<rparr>"
    by (simp add: init_sys_def numeral_3_eq_3)
  from semaphore_bound[OF e, of 5 2] show ?thesis
    by (simp add: init_sys_def numeral_3_eq_3 in_flight_def e)
qed

text \<open>
  C3. The loop of \<open>read\<close> calls with a positive sample size \<open>bps\<close> that fits the
  scratch buffer, started with fewer than \<open>bps\<close> bytes pending, whatever the source
  returns at each call and for any number \<open>n\<close> of iterations: no call panics; the
  length of every chunk sent is a multiple of \<open>bps\<close> (even, when \<open>bps\<close> is even);
  the bytes pending afterwards are fewer than \<open>bps\<close>; and the chunks are the scaled
  images of pieces \<open>raws\<close> that, put end to end and followed by the pending bytes,
  are exactly the bytes pending at the start followed by the bytes the source handed
  out, in order: no byte is dropped, repeated or moved.
\<close>

theorem loop_reads_aligned:
  assumes "0 < bps" and "bps \<le> bufSize" and "length (buf p) < bps"
  shows "\<exists>chunks stopped p' c'.
      loop_reads n bps ops p c = Inr (chunks, stopped, p', c')
      \<and> list_all (\<lambda>ch. length ch mod bps = 0) chunks
      \<and> (even bps \<longrightarrow> list_all (\<lambda>ch. even (length ch)) chunks)
      \<and> length (buf p') < bps
      \<and> (\<exists>raws. chunks = map (scale_chunk (volume p)) raws
            \<and> concat raws @ buf p' = buf p @ concat (source_reads n bps ops p c))"
proof -
  from loop_reads_inv[OF assms, of n ops c] obtain chunks stopped p' c' where
    h: "loop_reads n bps ops p c = Inr (chunks, stopped, p', c')"
      "\<forall>ch \<in> set chunks. length ch mod bps = 0" "length (buf p') < bps"
      "\<exists>raws. chunks = map (scale_chunk (volume p)) raws
            \<and> concat raws @ buf p' = buf p @ concat (source_reads n bps ops p c)"
    apply (elim exE conjE)
    apply (rule that; assumption?)
    apply (intro exI conjI; assumption)
    done
  have a: "list_all (\<lambda>ch. length ch mod bps = 0) chunks"
    using h(2) by (simp add: list_all_iff)
  have e: "even bps \<longrightarrow> list_all (\<lambda>ch. even (length ch)) chunks"
  proof
    assume "even bps"
    then have "\<And>k. k mod bps = 0 \<Longrightarrow> even k" by (metis dvd_trans mod_0_imp_dvd)
    with h(2) show "list_all (\<lambda>ch. even (length ch)) chunks" by (simp add: list_all_iff)
  qed
  show ?thesis
    apply (rule exI[of _ chunks], rule exI[of _ stopped], rule exI[of _ p'], rule exI[of _ c'])
    apply (intro conjI)
        apply (rule h(1))
       apply (rule a)
      apply (rule e)
     apply (rule h(3))
    apply (rule h(4))
    done
qed

theorem loop_reads_aligned_witness:
  "0 < (2::nat) \<and> 2 \<le> bufSize
   \<and> length (buf ((new_player [[1, 2, 3], [4, 5], [6, 7 :: byte]] 44100)\<lparr>playing := True\<rparr>)) < 2
   \<and> loop_reads 5 2 chunked_source ((new_player [[1, 2, 3], [4, 5], [6, 7]] 44100)\<lparr>playing := True\<rparr>) new_context
       = Inr ([[1, 2], [3, 4], [5, 6]], True,
            (new_player [] 44100)\<lparr>playing := True, buf := [7], pos := 6\<rparr>, new_context)
   \<and> source_reads 5 2 chunked_source ((new_player [[1, 2, 3], [4, 5], [6, 7]] 44100)\<lparr>playing := True\<rparr>) new_context
       = [[1, 2, 3], [4, 5], [6, 7]]
   \<and> list_all (\<lambda>ch. length ch mod 2 = 0) [[1, 2], [3, 4], [5, 6 :: byte]]
   \<and> concat [[1, 2], [3, 4], [5, 6]] @ [7 :: byte] = concat [[1, 2, 3], [4, 5], [6, 7]]"
proof -
  have h: "0 < (2::nat)" "2 \<le> bufSize"
    "length (buf ((new_player [[1, 2, 3], [4, 5], [6, 7 :: byte]] 44100)\<lparr>playing := True\<rparr>)) < 2"
    by (simp_all add: bufSize_def new_player_def)
  from loop_reads_aligned[OF h, of 5 chunked_source new_context] h chunked_run
  show ?thesis by simp
qed

text \<open>
  C4. \<open>SetVolume p v\<close> stores \<open>v\<close> exactly when \<open>v\<close> is a finite value with
  \<open>0 \<le> v \<le> 1\<close> as real numbers, and panics in the call itself in every other
  case; NaN and the two infinities panic.
\<close>

theorem SetVolume_iff:
  "(SetVolume p v = Inr (p\<lparr>volume := v\<rparr>)
       \<longleftrightarrow> (\<exists>m e. v = Finite m e) \<and> 0 \<le> float64_val v \<and> float64_val v \<le> 1)
   \<and> (SetVolume p v = Inl PanicVolume
       \<longleftrightarrow> \<not> ((\<exists>m e. v = Finite m e) \<and> 0 \<le> float64_val v \<and> float64_val v \<le> 1))
   \<and> SetVolume p NaN = Inl PanicVolume
   \<and> SetVolume p PosInf = Inl PanicVolume
   \<and> SetVolume p NegInf = Inl PanicVolume"
  unfolding in_range_iff[symmetric] by (simp add: SetVolume_def)

theorem SetVolume_iff_witness:
  "SetVolume (new_player () 44100) (Finite 1 (- 1)) = Inr ((new_player () 44100)\<lparr>volume := Finite 1 (- 1)\<rparr>)
   \<and> Volume ((new_player () 44100)\<lparr>volume := Finite 1 (- 1)\<rparr>) = Finite 1 (- 1)
   \<and> float64_val (Finite 1 (- 1)) = 1 / 2
   \<and> SetVolume (new_player () 44100) (Finite 3 (- 1)) = Inl PanicVolume
   \<and> SetVolume (new_player () 44100) (Finite (- 1) (- 1074)) = Inl PanicVolume
   \<and> SetVolume (new_player () 44100) (Finite 0 0) = Inr ((new_player () 44100)\<lparr>volume := Finite 0 0\<rparr>)
   \<and> SetVolume (new_player () 44100) (Finite 1 0) = Inr ((new_player () 44100)\<lparr>volume := Finite 1 0\<rparr>)"
  using SetVolume_iff[of "new_player () 44100" "Finite 1 (- 1)"]
    SetVolume_iff[of "new_player () 44100" "Finite 3 (- 1)"]
    SetVolume_iff[of "new_player () 44100" "Finite (- 1) (- 1074)"]
    SetVolume_iff[of "new_player () 44100" "Finite 0 0"]
    SetVolume_iff[of "new_player () 44100" "Finite 1 0"]
  by (simp add: Volume_def)

text \<open>
  C6, as the code has it. The source is a seeker, the sample size and the sample rate
  are positive, the offset is not negative and \<open>offset * bps * sampleRate\<close> is below
  \<open>2 ^ 63\<close>. With \<open>k = offset * sampleRate div 10 ^ 9\<close> the number of whole samples
  in \<open>offset\<close>, \<open>Seek\<close> asks the source for the byte offset \<open>k * bps\<close>, a sample
  boundary. When the source refuses, \<open>Seek\<close> returns its error and keeps the pending
  bytes and the position; otherwise the pending bytes are dropped and the position is
  the one the source reports. At the position \<open>k * bps\<close>, \<open>Current\<close> is
  \<open>cur = k * 10 ^ 9 div sampleRate\<close>, which is at most \<open>offset\<close> and below it by
  less than the duration of one sample plus one nanosecond. \<open>Rewind\<close> is \<open>Seek\<close> at 0.
\<close>

theorem Seek_then_Current:
  assumes "0 < bps" and "0 < sampleRate p" and "0 \<le> offset"
    and "offset * int bps * sampleRate p < 2 ^ 63"
    and "Seek_src ops = Some seek"
  shows "(let k = offset * sampleRate p div 10 ^ 9;
              cur = k * 10 ^ 9 div sampleRate p
          in Seek bps ops p offset =
               (case seek (src p) (k * int bps) of
                  (Inl e, s) \<Rightarrow> Inr (Some e, p\<lparr>src := s\<rparr>)
                | (Inr newpos, s) \<Rightarrow> Inr (None, p\<lparr>src := s, buf := [], pos := newpos\<rparr>))
             \<and> Current bps (p\<lparr>src := s', buf := [], pos := k * int bps\<rparr>) = Inr cur
             \<and> cur \<le> offset
             \<and> (offset - cur) * sampleRate p < 10 ^ 9 + sampleRate p
             \<and> Rewind bps ops p = Seek bps ops p 0)"
proof -
  define k where "k = offset * sampleRate p div 10 ^ 9"
  define cur where "cur = k * 10 ^ 9 div sampleRate p"
  have t: "(let o1 = go_div (wrap64 (wrap64 (offset * int bps) * sampleRate p)) (10 ^ 9)
          in wrap64 (o1 - go_mod o1 (int bps))) = k * int bps"
    unfolding k_def by (rule Seek_target[OF assms(1-4)])
  have sk: "Seek bps ops p offset =
               (case seek (src p) (k * int bps) of
                  (Inl e, s) \<Rightarrow> Inr (Some e, p\<lparr>src := s\<rparr>)
                | (Inr newpos, s) \<Rightarrow> Inr (None, p\<lparr>src := s, buf := [], pos := newpos\<rparr>))"
    using t unfolding Seek_def Let_def assms(5) by simp
  have k0: "0 \<le> k" unfolding k_def using assms(2,3) by (simp add: pos_imp_zdiv_nonneg_iff)
  have "k * 10 ^ 9 \<le> offset * sampleRate p"
    unfolding k_def using div_sandwich(1)[of "10 ^ 9" "offset * sampleRate p"] by simp
  also have "offset * sampleRate p * 1 \<le> offset * sampleRate p * int bps"
    using assms(1-3) by (intro mult_left_mono) simp_all
  finally have kb: "k * 10 ^ 9 < 2 ^ 63" using assms(4) by (simp add: mult_ac)
  have cu: "Current bps (p\<lparr>src := s', buf := [], pos := k * int bps\<rparr>) = Inr cur"
    unfolding cur_def by (rule Current_at[OF assms(1,2) k0 kb]) simp_all
  have b: "cur \<le> offset" "(offset - cur) * sampleRate p < 10 ^ 9 + sampleRate p"
    unfolding cur_def k_def using round_trip_bounds[OF assms(2,3)] by simp_all
  have rw: "Rewind bps ops p = Seek bps ops p 0"
    by (simp add: Rewind_def assms(5))
  show ?thesis
    unfolding Let_def k_def[symmetric] cur_def[symmetric]
    using sk cu b rw by simp
qed

theorem Seek_then_Current_witness:
  "0 < (2::nat)
   \<and> 0 < sampleRate ((new_player ([1, 2, 3, 4], 0) 44100)\<lparr>buf := [9], pos := 2\<rparr>)
   \<and> (0::int) \<le> 12345678
   \<and> 12345678 * int 2 * sampleRate ((new_player ([1, 2, 3, 4], 0) 44100)\<lparr>buf := [9], pos := 2\<rparr>) < 2 ^ 63
   \<and> Seek_src mem_source = Some mem_Seek
   \<and> Seek 2 mem_source ((new_player ([1, 2, 3, 4], 0) 44100)\<lparr>buf := [9], pos := 2\<rparr>) 12345678
       = Inr (None, (new_player ([1, 2, 3, 4], 1088) 44100)\<lparr>pos := 1088\<rparr>)
   \<and> Current 2 ((new_player (([1, 2, 3, 4], 1088) :: byte list \<times> nat) 44100)\<lparr>pos := 1088\<rparr>) = Inr 12335600
   \<and> Rewind 2 mem_source ((new_player ([1, 2, 3, 4], 0) 44100)\<lparr>buf := [9], pos := 2\<rparr>)
       = Inr (None, new_player ([1, 2, 3, 4], 0) 44100)"
proof -
  let ?p = "(new_player (([1, 2, 3, 4], 0) :: byte list \<times> nat) 44100)\<lparr>buf := [9], pos := 2\<rparr>"
  have h: "0 < (2::nat)" "0 < sampleRate ?p" "(0::int) \<le> 12345678"
    "12345678 * int 2 * sampleRate ?p < 2 ^ 63" "Seek_src mem_source = Some mem_Seek"
    by (simp_all add: new_player_def mem_source_def)
  have h0: "(0::int) \<le> 0" "0 * int 2 * sampleRate ?p < 2 ^ 63" by simp_all
  from Seek_then_Current[OF h, of "([1, 2, 3, 4], 1088)"]
    Seek_then_Current[OF h(1,2) h0 h(5), of "([1, 2, 3, 4], 0)"] h
  show ?thesis
    by (simp add: new_player_def mem_Seek_def Let_def)
qed

text \<open>
  C6, against the claim for every seekable source and every offset. The source is a
  reader over a byte slice, the player has one byte pending and stands at byte 2, so
  \<open>Current\<close> is 22675 ns at 44100 Hz. \<open>Seek\<close> at minus one second asks the reader
  for a negative offset; \<open>Seek\<close> at \<open>2 * 10 ^ 14\<close> ns (about 55 hours) does so too,
  for 2-byte and for 4-byte samples, as the \<open>int64\<close> product wraps around. The
  reader refuses, and \<open>Seek\<close> returns its error and leaves the pending byte and the
  position where they were: \<open>Current\<close> is still 22675 ns.
\<close>

theorem Seek_overflow_and_failure:
  "Seek 2 mem_source ((new_player ([1, 2, 3, 4], 2) 44100)\<lparr>buf := [9], pos := 2\<rparr>) (- (10 ^ 9))
      = Inr (Some (IOError ''bytes.Reader.Seek: negative position''),
             (new_player ([1, 2, 3, 4], 2) 44100)\<lparr>buf := [9], pos := 2\<rparr>)
   \<and> Seek 2 mem_source ((new_player ([1, 2, 3, 4], 2) 44100)\<lparr>buf := [9], pos := 2\<rparr>) (2 * 10 ^ 14)
      = Inr (Some (IOError ''bytes.Reader.Seek: negative position''),
             (new_player ([1, 2, 3, 4], 2) 44100)\<lparr>buf := [9], pos := 2\<rparr>)
   \<and> Seek 4 mem_source ((new_player ([1, 2, 3, 4], 2) 44100)\<lparr>buf := [9], pos := 2\<rparr>) (2 * 10 ^ 14)
      = Inr (Some (IOError ''bytes.Reader.Seek: negative position''),
             (new_player ([1, 2, 3, 4], 2) 44100)\<lparr>buf := [9], pos := 2\<rparr>)
   \<and> Current 2 ((new_player (([1, 2, 3, 4], 2) :: byte list \<times> nat) 44100)\<lparr>buf := [9], pos := 2\<rparr>) = Inr 22675"
  by (simp add: Seek_def Current_def new_player_def mem_source_def
      mem_Seek_def wrap64_def go_div_def go_mod_def Let_def)

end
